theory Spec2Isabelle
  imports Main "HOL-Library.Word"
begin

text \<open>
  The repository pairs each coding rule with small C++ demonstration programs. Three of
  them contain functions with behaviour of their own: the preallocated-buffer example and
  the \<open>SafeContainer\<close> class of rule 60, and the logging and caching functions of rule
  63 in their unnamed-namespace and \<open>static\<close> versions. They are embedded here as
  functions of HOL, and the statements made about them are proved below.
\<close>

section \<open>Memory faults\<close>

text \<open>
  The demonstration programs are C++. What C++ leaves undefined (a read or write past
  the end of an array, a dereferenced null pointer, a read of an indeterminate value)
  is a value of the model, so that "the code stays inside its buffer" is a statement
  that can be proved rather than assumed.
\<close>

datatype fault = OutOfBounds | NullDeref | UninitRead

section \<open>Rule 60, example 4: the preallocated buffer (\<open>rules/rule_60/good_example.cpp\<close>)\<close>

text \<open>
  A \<open>char\<close> is one byte, and a \<open>char*\<close> is modelled by the bytes of the object it points
  to, from the pointer on: a \<open>const char* input\<close> is the list of the bytes readable from
  \<open>input\<close>, and \<open>char* outputBuffer\<close> is the list of the bytes of the caller's array. A
  \<open>size_t\<close> is a \<open>nat\<close>: the only arithmetic on sizes is \<open>strlen(input) + 1\<close> and
  \<open>++i\<close> below a bound, neither of which can wrap for an object that fits in memory.
\<close>

definition NUL :: char where
  "NUL = CHR 0x00"

text \<open>
  \<open>std::strlen\<close>: the number of bytes before the first NUL. Scanning a byte sequence that
  holds no NUL runs off its end.
\<close>

fun strlen :: "char list \<Rightarrow> fault + nat" where
  "strlen [] = Inl OutOfBounds"
| "strlen (c # cs) =
     (if c = NUL then Inr 0
      else (case strlen cs of Inl e \<Rightarrow> Inl e | Inr n \<Rightarrow> Inr (Suc n)))"

text \<open>
  \<open>std::strcpy(dst, src)\<close>: copies the bytes of \<open>src\<close> up to and including its NUL to the
  start of \<open>dst\<close>; the rest of \<open>dst\<close> is untouched. It faults when \<open>src\<close> has no NUL or
  \<open>dst\<close> is too short to take the copy. Source and destination are separate objects,
  as they are for every caller in the file.
\<close>

fun strcpy :: "char list \<Rightarrow> char list \<Rightarrow> fault + char list" where
  "strcpy dst [] = Inl OutOfBounds"
| "strcpy [] (c # cs) = Inl OutOfBounds"
| "strcpy (d # ds) (c # cs) =
     (if c = NUL then Inr (c # ds)
      else (case strcpy ds cs of Inl e \<Rightarrow> Inl e | Inr r \<Rightarrow> Inr (c # r)))"

text \<open>
  \<open>std::toupper\<close> in the "C" locale, the one in force since no program of the repository
  calls \<open>setlocale\<close>: the letters \<open>a\<close> to \<open>z\<close> (97 to 122) go to \<open>A\<close> to \<open>Z\<close>, every other
  byte is returned as it is. The result is stored back into a \<open>char\<close>. A byte above 127
  reaches \<open>toupper\<close> as a negative \<open>int\<close> where \<open>char\<close> is signed, which the C standard
  leaves undefined; it is taken here to come back unchanged, as an implementation that
  indexes a table over the whole \<open>char\<close> range returns it.
\<close>

definition toupper :: "char \<Rightarrow> char" where
  "toupper c =
     (let n = (of_char c :: nat)
      in if 97 \<le> n \<and> n \<le> 122 then char_of (n - 32) else c)"

text \<open>
  The loop of \<open>processData\<close>,
  \<^verbatim>\<open>for (size_t i = 0; i < inputLen; ++i) outputBuffer[i] = std::toupper(outputBuffer[i]);\<close>
  from index \<open>i\<close> on. An index outside the caller's array is a fault.
\<close>

function upper_loop :: "nat \<Rightarrow> nat \<Rightarrow> char list \<Rightarrow> fault + char list" where
  "upper_loop i inputLen outputBuffer =
     (if i < inputLen then
        (if i < length outputBuffer
         then upper_loop (Suc i) inputLen (outputBuffer[i := toupper (outputBuffer ! i)])
         else Inl OutOfBounds)
      else Inr outputBuffer)"
  by pat_completeness auto
termination
  by (relation "measure (\<lambda>(i, inputLen, outputBuffer). inputLen - i)") auto

declare upper_loop.simps [simp del]

text \<open>
  \<open>module_a::processData(outputBuffer, bufferSize, input)\<close>. The result is the returned
  \<open>bool\<close> together with the contents of the caller's buffer afterwards.
\<close>

definition processData :: "char list \<Rightarrow> nat \<Rightarrow> char list \<Rightarrow> fault + (bool \<times> char list)" where
  "processData outputBuffer bufferSize input =
     (case strlen input of
        Inl e \<Rightarrow> Inl e
      | Inr inputLen \<Rightarrow>
          if inputLen \<ge> bufferSize then Inr (False, outputBuffer)
          else (case strcpy outputBuffer input of
                  Inl e \<Rightarrow> Inl e
                | Inr copied \<Rightarrow>
                    (case upper_loop 0 inputLen copied of
                       Inl e \<Rightarrow> Inl e
                     | Inr upper \<Rightarrow> Inr (True, upper))))"

text \<open>\<open>module_a::getRequiredBufferSize(input)\<close>.\<close>

definition getRequiredBufferSize :: "char list \<Rightarrow> fault + nat" where
  "getRequiredBufferSize input =
     (case strlen input of Inl e \<Rightarrow> Inl e | Inr n \<Rightarrow> Inr (n + 1))"

section \<open>Rule 60, example 6: \<open>SafeContainer\<close> (\<open>rules/rule_60/good_example.cpp\<close>)\<close>

text \<open>
  An \<open>int\<close> is a 32-bit word. The array behind \<open>int* data_\<close> is a list of cells; a cell
  that \<open>new int[size]\<close> has allocated and nothing has written yet holds an indeterminate
  value (\<open>None\<close>), and reading it is a fault. The pointer itself is \<open>None\<close> for
  \<open>nullptr\<close> and otherwise the array it owns: copying is deleted in the class, and the
  move constructor nulls its source, so no two containers ever share an array.
\<close>

type_synonym cell = "32 word option"

definition new_int_array :: "nat \<Rightarrow> cell list" where
  "new_int_array n = replicate n None"

definition array_write :: "cell list \<Rightarrow> nat \<Rightarrow> 32 word \<Rightarrow> fault + cell list" where
  "array_write a i v = (if i < length a then Inr (a[i := Some v]) else Inl OutOfBounds)"

definition array_read :: "cell list \<Rightarrow> nat \<Rightarrow> fault + 32 word" where
  "array_read a i =
     (if i < length a then (case a ! i of None \<Rightarrow> Inl UninitRead | Some v \<Rightarrow> Inr v)
      else Inl OutOfBounds)"

text \<open>
  The private members \<open>data_\<close> and \<open>size_\<close>, named \<open>data_m\<close> and \<open>size_m\<close> here (a
  name cannot end in an underscore).
\<close>

record SafeContainer =
  data_m :: "cell list option"
  size_m :: nat

text \<open>
  The constructor's loop, \<^verbatim>\<open>for (size_t i = 0; i < size_; ++i) data_[i] = 0;\<close>, from index
  \<open>i\<close> on.
\<close>

function zero_loop :: "nat \<Rightarrow> nat \<Rightarrow> cell list \<Rightarrow> fault + cell list" where
  "zero_loop i n a =
     (if i < n then
        (case array_write a i 0 of Inl e \<Rightarrow> Inl e | Inr a' \<Rightarrow> zero_loop (Suc i) n a')
      else Inr a)"
  by pat_completeness auto
termination
  by (relation "measure (\<lambda>(i, n, a). n - i)") auto

declare zero_loop.simps [simp del]

text \<open>\<open>SafeContainer(size_t size)\<close>, for an allocation that succeeds.\<close>

definition SafeContainer_construct :: "nat \<Rightarrow> fault + SafeContainer" where
  "SafeContainer_construct sz =
     (case zero_loop 0 sz (new_int_array sz) of
        Inl e \<Rightarrow> Inl e
      | Inr a \<Rightarrow> Inr \<lparr>data_m = Some a, size_m = sz\<rparr>)"

text \<open>
  The move constructor \<open>SafeContainer(SafeContainer&& other)\<close>: the new object, and
  \<open>other\<close> as the constructor leaves it.
\<close>

definition SafeContainer_move :: "SafeContainer \<Rightarrow> SafeContainer \<times> SafeContainer" where
  "SafeContainer_move other =
     (\<lparr>data_m = data_m other, size_m = size_m other\<rparr>, other\<lparr>data_m := None, size_m := 0\<rparr>)"

text \<open>\<open>void set(size_t index, int value)\<close>.\<close>

definition SafeContainer_set :: "SafeContainer \<Rightarrow> nat \<Rightarrow> 32 word \<Rightarrow> fault + SafeContainer" where
  "SafeContainer_set c index v =
     (if index < size_m c then
        (case data_m c of
           None \<Rightarrow> Inl NullDeref
         | Some a \<Rightarrow>
             (case array_write a index v of
                Inl e \<Rightarrow> Inl e
              | Inr a' \<Rightarrow> Inr (c\<lparr>data_m := Some a'\<rparr>)))
      else Inr c)"

text \<open>
  \<open>int get(size_t index) const\<close>. The member function is \<open>const\<close>: it returns a value and
  leaves the container as it is.
\<close>

definition SafeContainer_get :: "SafeContainer \<Rightarrow> nat \<Rightarrow> fault + 32 word" where
  "SafeContainer_get c index =
     (if index < size_m c then
        (case data_m c of None \<Rightarrow> Inl NullDeref | Some a \<Rightarrow> array_read a index)
      else Inr 0)"

definition SafeContainer_size :: "SafeContainer \<Rightarrow> nat" where
  "SafeContainer_size c = size_m c"

text \<open>A caller's sequence of \<open>set(index, value)\<close> calls on one container, in order.\<close>

fun apply_sets :: "SafeContainer \<Rightarrow> (nat \<times> 32 word) list \<Rightarrow> fault + SafeContainer" where
  "apply_sets c [] = Inr c"
| "apply_sets c ((i, v) # ops) =
     (case SafeContainer_set c i v of Inl e \<Rightarrow> Inl e | Inr c' \<Rightarrow> apply_sets c' ops)"

text \<open>
  The relation between the pointer and the stored size that the class keeps: a null
  pointer goes with size 0, and any other pointer owns exactly \<open>size_\<close> cells, all of
  them written.
\<close>

definition SafeContainer_inv :: "SafeContainer \<Rightarrow> bool" where
  "SafeContainer_inv c =
     (case data_m c of
        None \<Rightarrow> size_m c = 0
      | Some a \<Rightarrow> length a = size_m c \<and> list_all (\<lambda>x. x \<noteq> None) a)"

section \<open>Rule 63: internal linkage (\<open>rules/rule_63/good_example.cpp\<close>)\<close>

text \<open>
  The translation unit's state is what its functions can change: the text written to
  \<open>std::cout\<close> so far and the file-local \<open>cache\<close> vector. The file-local \<open>logger\<close> has no
  data members. A \<open>std::string\<close> is a list of bytes; \<open>long timestamp\<close> only ever holds
  the literal 0.
\<close>

record CacheEntry =
  ce_key :: string
  ce_value :: string
  ce_timestamp :: int

record unit_state =
  cout :: string
  cache :: "CacheEntry list"

definition initial_state :: unit_state where
  "initial_state = \<lparr>cout = [], cache = []\<rparr>"

text \<open>\<open>std::to_string(int)\<close>: the decimal digits, with a minus sign for a negative value.\<close>

definition digit :: "nat \<Rightarrow> char" where
  "digit d = char_of (48 + d)"

fun to_string_nat :: "nat \<Rightarrow> string" where
  "to_string_nat n =
     (if n < 10 then [digit n] else to_string_nat (n div 10) @ [digit (n mod 10)])"

declare to_string_nat.simps [simp del]

definition to_string :: "int \<Rightarrow> string" where
  "to_string i =
     (if i < 0 then CHR ''-'' # to_string_nat (nat (- i)) else to_string_nat (nat i))"

subsection \<open>The unnamed-namespace version\<close>

definition Logger_log :: "string \<Rightarrow> unit_state \<Rightarrow> unit_state" where
  "Logger_log message s = s\<lparr>cout := cout s @ ''[LOG] '' @ message @ ''\<newline>''\<rparr>"

definition isValidInput :: "string \<Rightarrow> bool" where
  "isValidInput input = (\<not> (input = []) \<and> length input < 100)"

definition MAX_RETRIES :: int where
  "MAX_RETRIES = 3"

definition logError :: "string \<Rightarrow> unit_state \<Rightarrow> unit_state" where
  "logError error s = Logger_log (''ERROR: '' @ error) s"

text \<open>
  The loop of \<open>mylib::processData\<close>,
  \<^verbatim>\<open>for (int i = 0; i < MAX_RETRIES; ++i) logger.log("Attempt " + std::to_string(i + 1));\<close>
  from \<open>i\<close> on.
\<close>

function attempt_loop :: "int \<Rightarrow> unit_state \<Rightarrow> unit_state" where
  "attempt_loop i s =
     (if i < MAX_RETRIES
      then attempt_loop (i + 1) (Logger_log (''Attempt '' @ to_string (i + 1)) s)
      else s)"
  by pat_completeness auto
termination
  by (relation "measure (\<lambda>(i, s). nat (MAX_RETRIES - i))") auto

declare attempt_loop.simps [simp del]

definition mylib_processData :: "string \<Rightarrow> unit_state \<Rightarrow> unit_state" where
  "mylib_processData data s =
     (if \<not> isValidInput data then logError ''Invalid input'' s
      else attempt_loop 0 (Logger_log (''Processing: '' @ data) s))"

definition mylib_cacheData :: "string \<Rightarrow> string \<Rightarrow> unit_state \<Rightarrow> unit_state" where
  "mylib_cacheData k v s =
     (let entry = \<lparr>ce_key = k, ce_value = v, ce_timestamp = 0\<rparr>;
          s1 = s\<lparr>cache := cache s @ [entry]\<rparr>
      in Logger_log (''Cached: '' @ k) s1)"

subsection \<open>The \<open>static\<close> version (the "Bad: Using old C-style static" example)\<close>

text \<open>
  The second file declares the same helpers with \<open>static\<close> (and the two classes with
  external linkage). Each of its functions is translated from its own text.
\<close>

definition Logger_log_static :: "string \<Rightarrow> unit_state \<Rightarrow> unit_state" where
  "Logger_log_static message s = s\<lparr>cout := cout s @ ''[LOG] '' @ message @ ''\<newline>''\<rparr>"

definition isValidInput_static :: "string \<Rightarrow> bool" where
  "isValidInput_static input = (\<not> (input = []) \<and> length input < 100)"

definition MAX_RETRIES_static :: int where
  "MAX_RETRIES_static = 3"

definition logError_static :: "string \<Rightarrow> unit_state \<Rightarrow> unit_state" where
  "logError_static error s = Logger_log_static (''ERROR: '' @ error) s"

function attempt_loop_static :: "int \<Rightarrow> unit_state \<Rightarrow> unit_state" where
  "attempt_loop_static i s =
     (if i < MAX_RETRIES_static
      then attempt_loop_static (i + 1) (Logger_log_static (''Attempt '' @ to_string (i + 1)) s)
      else s)"
  by pat_completeness auto
termination
  by (relation "measure (\<lambda>(i, s). nat (MAX_RETRIES_static - i))") auto

declare attempt_loop_static.simps [simp del]

definition mylib_processData_static :: "string \<Rightarrow> unit_state \<Rightarrow> unit_state" where
  "mylib_processData_static data s =
     (if \<not> isValidInput_static data then logError_static ''Invalid input'' s
      else attempt_loop_static 0 (Logger_log_static (''Processing: '' @ data) s))"

definition mylib_cacheData_static :: "string \<Rightarrow> string \<Rightarrow> unit_state \<Rightarrow> unit_state" where
  "mylib_cacheData_static k v s =
     (let entry = \<lparr>ce_key = k, ce_value = v, ce_timestamp = 0\<rparr>;
          s1 = s\<lparr>cache := cache s @ [entry]\<rparr>
      in Logger_log_static (''Cached: '' @ k) s1)"

subsection \<open>Sequences of calls\<close>

text \<open>
  A client of the public interface calls \<open>mylib::processData\<close> and \<open>mylib::cacheData\<close> in
  some order; \<open>run_calls\<close> runs such a sequence against one version of the two functions.
\<close>

datatype call = ProcessData string | CacheData string string

fun run_calls ::
  "(string \<Rightarrow> unit_state \<Rightarrow> unit_state) \<Rightarrow> (string \<Rightarrow> string \<Rightarrow> unit_state \<Rightarrow> unit_state)
   \<Rightarrow> call list \<Rightarrow> unit_state \<Rightarrow> unit_state" where
  "run_calls pd cd [] s = s"
| "run_calls pd cd (ProcessData d # cs) s = run_calls pd cd cs (pd d s)"
| "run_calls pd cd (CacheData k v # cs) s = run_calls pd cd cs (cd k v s)"

section \<open>Facts about the string primitives\<close>

lemma strlen_Inr_iff: "(\<exists>n. strlen s = Inr n) \<longleftrightarrow> NUL \<in> set s"
  by (induction s) (auto split: sum.splits)

lemma strlen_takeWhile:
  "strlen s = Inr n \<Longrightarrow> n = length (takeWhile (\<lambda>c. c \<noteq> NUL) s)"
  by (induction s arbitrary: n) (auto split: sum.splits if_splits)

lemma strlen_less: "strlen s = Inr n \<Longrightarrow> n < length s"
  by (induction s arbitrary: n) (auto split: sum.splits if_splits)

lemma strlen_nth: "strlen s = Inr n \<Longrightarrow> s ! n = NUL"
  by (induction s arbitrary: n) (auto split: sum.splits if_splits)

lemma strlen_no_NUL: "strlen s = Inr n \<Longrightarrow> NUL \<notin> set (take n s)"
  by (induction s arbitrary: n) (auto split: sum.splits if_splits)

lemma strlen_append: "NUL \<notin> set u \<Longrightarrow> strlen (u @ NUL # r) = Inr (length u)"
  by (induction u) auto

lemma strlen_take: "strlen s = Inr n \<Longrightarrow> take n s = takeWhile (\<lambda>c. c \<noteq> NUL) s"
  by (induction s arbitrary: n) (auto split: sum.splits if_splits)

lemma of_char_NUL: "of_char NUL = (0::nat)"
  by (simp add: NUL_def)

lemma toupper_NUL_iff: "toupper c = NUL \<longleftrightarrow> c = NUL"
proof -
  have "(of_char (toupper c) = (0::nat)) \<longleftrightarrow> (of_char c = (0::nat))"
    by (auto simp: toupper_def Let_def)
  moreover have "\<And>d. (of_char d = (0::nat)) \<longleftrightarrow> d = NUL"
    using of_char_eq_iff [where ?'a = nat] of_char_NUL by metis
  ultimately show ?thesis by simp
qed

lemma toupper_keeps_no_NUL: "NUL \<notin> set u \<Longrightarrow> NUL \<notin> set (map toupper u)"
proof
  assume a: "NUL \<notin> set u" and b: "NUL \<in> set (map toupper u)"
  from b obtain x where "x \<in> set u" "toupper x = NUL" by auto
  with a show False by (simp add: toupper_NUL_iff)
qed

lemma strcpy_ok:
  "strlen src = Inr n \<Longrightarrow> n < length dst \<Longrightarrow>
   strcpy dst src = Inr (take n src @ NUL # drop (Suc n) dst)"
proof (induction dst src arbitrary: n rule: strcpy.induct)
  case (1 dst)
  then show ?case by simp
next
  case (2 c cs)
  then show ?case by simp
next
  case (3 d ds c cs)
  show ?case
  proof (cases "c = NUL")
    case True
    with 3 show ?thesis by simp
  next
    case False
    with "3.prems" obtain m where m: "strlen cs = Inr m" "n = Suc m"
      by (auto split: sum.splits)
    with "3.prems" have "m < length ds" by simp
    from "3.IH" [OF False m(1) this] False m show ?thesis by simp
  qed
qed

lemma upper_loop_ok:
  "inputLen \<le> length b \<Longrightarrow> i \<le> inputLen \<Longrightarrow>
   upper_loop i inputLen b =
     Inr (take i b @ map toupper (take (inputLen - i) (drop i b)) @ drop inputLen b)"
proof (induction i inputLen b rule: upper_loop.induct)
  case (1 i inputLen b)
  show ?case
  proof (cases "i < inputLen")
    case False
    with "1.prems" show ?thesis by (simp add: upper_loop.simps)
  next
    case True
    with "1.prems" have ib: "i < length b" by simp
    let ?b' = "b[i := toupper (b ! i)]"
    have step: "upper_loop i inputLen b = upper_loop (Suc i) inputLen ?b'"
      using True ib by (subst upper_loop.simps) simp
    have "upper_loop (Suc i) inputLen ?b' =
        Inr (take (Suc i) ?b' @ map toupper (take (inputLen - Suc i) (drop (Suc i) ?b'))
             @ drop inputLen ?b')"
      using "1.IH" [OF True ib] "1.prems" True by simp
    also have "take (Suc i) ?b' = take i b @ [toupper (b ! i)]"
      using ib by (simp add: take_Suc_conv_app_nth)
    also have "drop (Suc i) ?b' = drop (Suc i) b"
      by simp
    also have "drop inputLen ?b' = drop inputLen b"
      using True by simp
    finally have "upper_loop (Suc i) inputLen ?b' =
        Inr (take i b @ toupper (b ! i) # map toupper (take (inputLen - Suc i) (drop (Suc i) b))
             @ drop inputLen b)"
      by simp
    moreover have "take (inputLen - i) (drop i b) = b ! i # take (inputLen - Suc i) (drop (Suc i) b)"
    proof -
      have "drop i b = b ! i # drop (Suc i) b"
        using ib by (simp add: Cons_nth_drop_Suc)
      moreover obtain k where "inputLen - i = Suc k" "inputLen - Suc i = k"
        using True by (cases "inputLen - i") auto
      ultimately show ?thesis by simp
    qed
    ultimately show ?thesis using step by simp
  qed
qed

lemma processData_small:
  "strlen input = Inr len \<Longrightarrow> bufferSize \<le> len \<Longrightarrow>
   processData buf bufferSize input = Inr (False, buf)"
  by (simp add: processData_def)

lemma processData_fits:
  assumes len: "strlen input = Inr len"
    and fits: "len < bufferSize"
    and room: "bufferSize \<le> length buf"
  shows "processData buf bufferSize input =
     Inr (True, map toupper (take len input) @ NUL # drop (Suc len) buf)"
proof -
  from fits room have lb: "len < length buf" by simp
  let ?copied = "take len input @ NUL # drop (Suc len) buf"
  have cp: "strcpy buf input = Inr ?copied"
    by (rule strcpy_ok [OF len lb])
  have li: "len < length input"
    by (rule strlen_less [OF len])
  have lc: "len \<le> length ?copied"
    using li by simp
  have "upper_loop 0 len ?copied =
      Inr (take 0 ?copied @ map toupper (take (len - 0) (drop 0 ?copied)) @ drop len ?copied)"
    by (rule upper_loop_ok [OF lc]) simp
  moreover have "take len ?copied = take len input"
    using li by simp
  moreover have "drop len ?copied = NUL # drop (Suc len) buf"
    using li by simp
  ultimately have "upper_loop 0 len ?copied =
      Inr (map toupper (take len input) @ NUL # drop (Suc len) buf)"
    by simp
  with len fits cp show ?thesis
    by (simp add: processData_def)
qed

section \<open>Claims about \<open>module_a::processData\<close>\<close>

text \<open>
  C7. For every input string (a byte sequence that holds a NUL, so that \<open>strlen\<close> returns
  its length \<open>len\<close>) and every buffer size \<open>n\<close>, \<open>processData\<close> returns false if and only
  if \<open>len \<ge> n\<close>; and whenever it returns false, the caller's buffer holds what it held
  before the call. The call does return, with true or false, whenever the caller's
  buffer really has the \<open>n\<close> bytes announced.
\<close>

theorem processData_false_iff:
  assumes "strlen input = Inr len"
  shows "((\<exists>b. processData buf n input = Inr (False, b)) \<longleftrightarrow> len \<ge> n)
       \<and> (\<forall>b. processData buf n input = Inr (False, b) \<longrightarrow> b = buf)
       \<and> (n \<le> length buf \<longrightarrow> (\<exists>r b. processData buf n input = Inr (r, b)))"
proof (intro conjI impI)
  show "(\<exists>b. processData buf n input = Inr (False, b)) \<longleftrightarrow> len \<ge> n"
    using assms by (auto simp: processData_def split: sum.splits)
  show "\<forall>b. processData buf n input = Inr (False, b) \<longrightarrow> b = buf"
    using assms by (auto simp: processData_def split: sum.splits)
  show "\<exists>r b. processData buf n input = Inr (r, b)" if room: "n \<le> length buf"
  proof (cases "len < n")
    case True
    from processData_fits [OF assms True room] show ?thesis by blast
  next
    case False
    then have "n \<le> len" by simp
    from processData_small [OF assms this] show ?thesis by blast
  qed
qed

theorem processData_false_iff_witness:
  "strlen (''abc'' @ [NUL]) = Inr 3
   \<and> processData ''????'' 3 (''abc'' @ [NUL]) = Inr (False, ''????'')
   \<and> (\<forall>b. processData ''????'' 4 (''abc'' @ [NUL]) \<noteq> Inr (False, b))
   \<and> (\<exists>r b. processData ''????'' 4 (''abc'' @ [NUL]) = Inr (r, b))"
proof -
  have h: "strlen (''abc'' @ [NUL]) = Inr 3"
    by (simp add: NUL_def)
  from processData_false_iff [OF h, of "''????''" 3]
       processData_false_iff [OF h, of "''????''" 4]
  show ?thesis using h by auto
qed

text \<open>
  C8. For every input string, \<open>getRequiredBufferSize\<close> returns the length of the string
  plus one, and \<open>processData\<close> called with a buffer of exactly that size returns true and
  leaves in the buffer the string's characters (the bytes before the first NUL), each
  mapped through \<open>toupper\<close>, followed by the terminating NUL.
\<close>

theorem processData_required_size_uppercases:
  assumes "NUL \<in> set input"
  shows "\<exists>sz. getRequiredBufferSize input = Inr sz
      \<and> sz = length (takeWhile (\<lambda>c. c \<noteq> NUL) input) + 1
      \<and> (\<forall>buf. length buf = sz \<longrightarrow>
            processData buf sz input =
              Inr (True, map toupper (takeWhile (\<lambda>c. c \<noteq> NUL) input) @ [NUL]))"
proof -
  from assms obtain len where len: "strlen input = Inr len"
    using strlen_Inr_iff by blast
  have sz: "getRequiredBufferSize input = Inr (len + 1)"
    using len by (simp add: getRequiredBufferSize_def)
  have tw: "take len input = takeWhile (\<lambda>c. c \<noteq> NUL) input"
    by (rule strlen_take [OF len])
  have "processData buf (len + 1) input = Inr (True, map toupper (take len input) @ [NUL])"
    if "length buf = len + 1" for buf
    using processData_fits [OF len, of "len + 1" buf] that by simp
  with sz tw strlen_takeWhile [OF len] show ?thesis by simp
qed

theorem processData_required_size_uppercases_witness:
  "NUL \<in> set (''hello world'' @ [NUL])
   \<and> getRequiredBufferSize (''hello world'' @ [NUL]) = Inr 12
   \<and> processData ''????????????'' 12 (''hello world'' @ [NUL]) = Inr (True, ''HELLO WORLD'' @ [NUL])"
proof -
  have h: "NUL \<in> set (''hello world'' @ [NUL])"
    by simp
  have tw: "takeWhile (\<lambda>c. c \<noteq> NUL) (''hello world'' @ [NUL]) = ''hello world''"
    by (simp add: NUL_def)
  have up: "map toupper ''hello world'' = ''HELLO WORLD''"
    by code_simp
  from processData_required_size_uppercases [OF h] obtain sz
    where a: "getRequiredBufferSize (''hello world'' @ [NUL]) = Inr sz"
      and b: "sz = length (takeWhile (\<lambda>c. c \<noteq> NUL) (''hello world'' @ [NUL])) + 1"
      and c: "\<forall>buf. length buf = sz \<longrightarrow>
            processData buf sz (''hello world'' @ [NUL]) =
              Inr (True, map toupper (takeWhile (\<lambda>c. c \<noteq> NUL) (''hello world'' @ [NUL])) @ [NUL])"
    by blast
  have sz: "sz = 12"
    unfolding b tw by simp
  have "length ''????????????'' = sz"
    unfolding sz by simp
  with c have "processData ''????????????'' sz (''hello world'' @ [NUL]) =
      Inr (True, map toupper (takeWhile (\<lambda>c. c \<noteq> NUL) (''hello world'' @ [NUL])) @ [NUL])"
    by blast
  then have "processData ''????????????'' 12 (''hello world'' @ [NUL]) =
      Inr (True, ''HELLO WORLD'' @ [NUL])"
    unfolding tw up sz .
  with h a sz show ?thesis
    by blast
qed

text \<open>
  C2, as the code has it. The specification denies that any round-trip law holds, and
  in particular that \<open>processData\<close> always succeeds on a buffer of the size that
  \<open>getRequiredBufferSize\<close> reports. The code does satisfy that law: no input string and
  buffer of the reported size exist for which \<open>processData\<close> does not return true.
\<close>

theorem required_size_never_rejected:
  "\<not> (\<exists>input sz buf. getRequiredBufferSize input = Inr sz \<and> length buf = sz
        \<and> (\<forall>b. processData buf sz input \<noteq> Inr (True, b)))"
proof
  assume "\<exists>input sz buf. getRequiredBufferSize input = Inr sz \<and> length buf = sz
        \<and> (\<forall>b. processData buf sz input \<noteq> Inr (True, b))"
  then obtain input sz buf where g: "getRequiredBufferSize input = Inr sz"
    and l: "length buf = sz" and n: "\<forall>b. processData buf sz input \<noteq> Inr (True, b)"
    by blast
  from g obtain len where len: "strlen input = Inr len" and sz: "sz = len + 1"
    by (auto simp: getRequiredBufferSize_def split: sum.splits)
  from processData_fits [OF len, of sz buf] l sz n show False by simp
qed

text \<open>
  C2, amended. A round-trip law holds between the two operations: for every input string,
  \<open>processData\<close> on a buffer of the size \<open>getRequiredBufferSize\<close> reports returns true,
  the buffer afterwards is again a string filling the buffer exactly, and
  \<open>getRequiredBufferSize\<close> of that result is the size that was asked for the input.
\<close>

theorem required_size_round_trip:
  assumes "getRequiredBufferSize input = Inr sz" and "length buf = sz"
  shows "\<exists>out. processData buf sz input = Inr (True, out)
           \<and> length out = sz \<and> getRequiredBufferSize out = Inr sz"
proof -
  from assms(1) obtain len where len: "strlen input = Inr len" and sz: "sz = len + 1"
    by (auto simp: getRequiredBufferSize_def split: sum.splits)
  let ?out = "map toupper (take len input) @ [NUL]"
  have pd: "processData buf sz input = Inr (True, ?out)"
    using processData_fits [OF len, of sz buf] assms(2) sz by simp
  have li: "len < length input" by (rule strlen_less [OF len])
  have "NUL \<notin> set (map toupper (take len input))"
    by (rule toupper_keeps_no_NUL [OF strlen_no_NUL [OF len]])
  from strlen_append [OF this, of "[]"] li
  have "strlen ?out = Inr len" by simp
  then have "getRequiredBufferSize ?out = Inr sz"
    by (simp add: getRequiredBufferSize_def sz)
  moreover have "length ?out = sz" using li sz by simp
  ultimately show ?thesis using pd by blast
qed

theorem required_size_round_trip_witness:
  "getRequiredBufferSize (''key1'' @ [NUL]) = Inr 5
   \<and> length ''?????'' = 5
   \<and> (\<exists>out. processData ''?????'' 5 (''key1'' @ [NUL]) = Inr (True, out)
           \<and> length out = 5 \<and> getRequiredBufferSize out = Inr 5)"
proof -
  have g: "getRequiredBufferSize (''key1'' @ [NUL]) = Inr 5"
    by code_simp
  have l: "length ''?????'' = 5"
    by simp
  from required_size_round_trip [OF g l] g l show ?thesis
    by simp
qed

text \<open>
  C4, as the code has it. The specification says that no operation implements a testable
  error result. \<open>processData\<close> does: on the same three-character input it reports
  success for a four-byte buffer and failure ("Buffer too small") for a three-byte one.
\<close>

theorem processData_reports_buffer_too_small:
  "processData ''????'' 4 (''abc'' @ [NUL]) = Inr (True, ''ABC'' @ [NUL])
   \<and> processData ''????'' 3 (''abc'' @ [NUL]) = Inr (False, ''????'')"
  by code_simp

text \<open>
  C4, amended. \<open>processData\<close> returns a success/failure indicator that is determined by a
  condition on its inputs: given an input string of length \<open>len\<close> and a buffer that
  really has the \<open>bufferSize\<close> bytes the caller announces, it returns (without fault)
  true when \<open>len < bufferSize\<close> and false otherwise.
\<close>

theorem processData_result_determined:
  assumes "strlen input = Inr len" and "bufferSize \<le> length buf"
  shows "\<exists>b. processData buf bufferSize input = Inr (len < bufferSize, b)"
proof (cases "len < bufferSize")
  case True
  from processData_fits [OF assms(1) True assms(2)] True show ?thesis by simp
next
  case False
  then have "bufferSize \<le> len" by simp
  from processData_small [OF assms(1) this] False show ?thesis by simp
qed

theorem processData_result_determined_witness:
  "strlen (''test data'' @ [NUL]) = Inr 9
   \<and> (\<exists>b. processData ''????????????'' 12 (''test data'' @ [NUL]) = Inr (True, b))
   \<and> (\<exists>b. processData ''????????????'' 9 (''test data'' @ [NUL]) = Inr (False, b))"
proof -
  have h: "strlen (''test data'' @ [NUL]) = Inr 9"
    by code_simp
  have l12: "12 \<le> length ''????????????''" and l9: "9 \<le> length ''????????????''"
    by simp_all
  from processData_result_determined [OF h l12] processData_result_determined [OF h l9] h
  show ?thesis by simp
qed

section \<open>Facts about \<open>SafeContainer\<close>\<close>

lemma zero_loop_ok:
  "n \<le> length a \<Longrightarrow> i \<le> n \<Longrightarrow>
   zero_loop i n a = Inr (take i a @ replicate (n - i) (Some 0) @ drop n a)"
proof (induction i n a rule: zero_loop.induct)
  case (1 i n a)
  show ?case
  proof (cases "i < n")
    case False
    with "1.prems" show ?thesis by (simp add: zero_loop.simps)
  next
    case True
    with "1.prems" have ia: "i < length a" by simp
    let ?a' = "a[i := Some 0]"
    have w: "array_write a i 0 = Inr ?a'"
      using ia by (simp add: array_write_def)
    have step: "zero_loop i n a = zero_loop (Suc i) n ?a'"
      using True w by (subst zero_loop.simps) simp
    have "zero_loop (Suc i) n ?a' =
        Inr (take (Suc i) ?a' @ replicate (n - Suc i) (Some 0) @ drop n ?a')"
      using "1.IH" [OF True w] "1.prems" True by simp
    moreover have "take (Suc i) ?a' = take i a @ [Some 0]"
      using ia by (simp add: take_Suc_conv_app_nth)
    moreover have "drop n ?a' = drop n a"
      using True by simp
    moreover have "replicate (n - i) (Some (0::32 word)) = Some 0 # replicate (n - Suc i) (Some 0)"
      using True by (cases "n - i") (auto simp: Suc_diff_Suc)
    ultimately show ?thesis using step by simp
  qed
qed

lemma construct_ok:
  "SafeContainer_construct n = Inr \<lparr>data_m = Some (replicate n (Some 0)), size_m = n\<rparr>"
  using zero_loop_ok [of n "new_int_array n" 0]
  by (simp add: SafeContainer_construct_def new_int_array_def)

lemma construct_inv: "SafeContainer_inv \<lparr>data_m = Some (replicate n (Some 0)), size_m = n\<rparr>"
  by (simp add: SafeContainer_inv_def list_all_iff)

lemma inv_cases:
  assumes "SafeContainer_inv c"
  obtains (null) "data_m c = None" "size_m c = 0"
  | (array) a where "data_m c = Some a" "length a = size_m c" "list_all (\<lambda>x. x \<noteq> None) a"
  using assms by (auto simp: SafeContainer_inv_def split: option.splits)

lemma set_in_range:
  "data_m c = Some a \<Longrightarrow> length a = size_m c \<Longrightarrow> i < size_m c \<Longrightarrow>
   SafeContainer_set c i v = Inr (c\<lparr>data_m := Some (a[i := Some v])\<rparr>)"
  by (simp add: SafeContainer_set_def array_write_def)

lemma set_out_of_range: "\<not> i < size_m c \<Longrightarrow> SafeContainer_set c i v = Inr c"
  by (simp add: SafeContainer_set_def)

lemma get_out_of_range: "\<not> i < size_m c \<Longrightarrow> SafeContainer_get c i = Inr 0"
  by (simp add: SafeContainer_get_def)

lemma get_in_range:
  "data_m c = Some a \<Longrightarrow> length a = size_m c \<Longrightarrow> i < size_m c \<Longrightarrow> a ! i = Some x \<Longrightarrow>
   SafeContainer_get c i = Inr x"
  by (simp add: SafeContainer_get_def array_read_def)

lemma list_all_update:
  "list_all (\<lambda>x. x \<noteq> None) a \<Longrightarrow> list_all (\<lambda>x. x \<noteq> None) (a[i := Some v])"
  by (auto simp: list_all_iff dest!: set_update_subset_insert [THEN subsetD])

lemma set_preserves:
  assumes "SafeContainer_inv c"
  shows "\<exists>c'. SafeContainer_set c i v = Inr c' \<and> SafeContainer_inv c' \<and> size_m c' = size_m c"
proof (cases "i < size_m c")
  case False
  with assms show ?thesis by (simp add: set_out_of_range)
next
  case True
  from assms show ?thesis
  proof (cases rule: inv_cases)
    case null
    with True show ?thesis by simp
  next
    case (array a)
    from set_in_range [OF array(1,2) True]
    have "SafeContainer_set c i v = Inr (c\<lparr>data_m := Some (a[i := Some v])\<rparr>)" .
    moreover have "SafeContainer_inv (c\<lparr>data_m := Some (a[i := Some v])\<rparr>)"
      using array list_all_update [OF array(3)] by (simp add: SafeContainer_inv_def)
    ultimately show ?thesis by simp
  qed
qed

lemma get_no_fault:
  assumes "SafeContainer_inv c"
  shows "\<exists>x. SafeContainer_get c i = Inr x"
proof (cases "i < size_m c")
  case False
  then show ?thesis by (simp add: get_out_of_range)
next
  case True
  from assms show ?thesis
  proof (cases rule: inv_cases)
    case null
    with True show ?thesis by simp
  next
    case (array a)
    with True have "a ! i \<noteq> None" by (simp add: list_all_length)
    then obtain x where "a ! i = Some x" by auto
    from get_in_range [OF array(1,2) True this] show ?thesis by blast
  qed
qed

lemma move_preserves:
  assumes "SafeContainer_inv c"
  shows "SafeContainer_inv (fst (SafeContainer_move c)) \<and> SafeContainer_inv (snd (SafeContainer_move c))"
  using assms by (simp add: SafeContainer_move_def SafeContainer_inv_def split: option.splits)

lemma apply_sets_preserves:
  "SafeContainer_inv c \<Longrightarrow>
   \<exists>c'. apply_sets c ops = Inr c' \<and> SafeContainer_inv c' \<and> size_m c' = size_m c"
proof (induction ops arbitrary: c)
  case Nil
  then show ?case by simp
next
  case (Cons op ops)
  obtain i v where op: "op = (i, v)" by (cases op)
  from set_preserves [OF Cons.prems, of i v] obtain c1
    where c1: "SafeContainer_set c i v = Inr c1" "SafeContainer_inv c1" "size_m c1 = size_m c"
    by blast
  from Cons.IH [OF c1(2)] c1 op show ?case by simp
qed

lemma reachable_shape:
  "\<exists>c0 c a. SafeContainer_construct n = Inr c0 \<and> apply_sets c0 ops = Inr c
      \<and> data_m c = Some a \<and> size_m c = n \<and> length a = n \<and> list_all (\<lambda>x. x \<noteq> None) a"
proof -
  let ?start = "\<lparr>data_m = Some (replicate n (Some 0)), size_m = n\<rparr>"
  from apply_sets_preserves [OF construct_inv, of n ops] obtain c
    where c: "apply_sets ?start ops = Inr c" "SafeContainer_inv c" "size_m c = n"
    by auto
  have "data_m c' \<noteq> None" if "apply_sets c0' ops' = Inr c'" "data_m c0' \<noteq> None" for c0' c' ops'
    using that
  proof (induction ops' arbitrary: c0')
    case Nil
    then show ?case by simp
  next
    case (Cons op ops')
    obtain i v where op: "op = (i, v)" by (cases op)
    from Cons.prems(1) op obtain c1 where c1: "SafeContainer_set c0' i v = Inr c1"
      and r: "apply_sets c1 ops' = Inr c'"
      by (auto split: sum.splits)
    from c1 Cons.prems(2) have "data_m c1 \<noteq> None"
      by (auto simp: SafeContainer_set_def split: if_splits option.splits sum.splits)
    from Cons.IH [OF r this] show ?case .
  qed
  from this [OF c(1)] obtain a where a: "data_m c = Some a" by auto
  with c(2,3) have "length a = n" "list_all (\<lambda>x. x \<noteq> None) a"
    by (auto simp: SafeContainer_inv_def)
  with construct_ok [of n] c a show ?thesis by blast
qed

section \<open>Claims about \<open>SafeContainer\<close>\<close>

text \<open>
  C9. Take any container constructed with size \<open>n\<close> and then changed by any sequence of
  \<open>set\<close> calls. The construction and all those calls complete without a fault, the
  container still owns exactly \<open>n\<close> cells and reports size \<open>n\<close>, and a freshly
  constructed container reads 0 everywhere. For every index \<open>i\<close> and value \<open>v\<close>: when
  \<open>i < n\<close>, \<open>set(i, v)\<close> replaces cell \<open>i\<close> and nothing else and \<open>get(i)\<close> returns the
  value stored in cell \<open>i\<close>; when \<open>i \<ge> n\<close>, \<open>set(i, v)\<close> leaves the container as it is
  and \<open>get(i)\<close> returns 0. Neither call faults, so neither touches an index outside the
  \<open>n\<close> allocated cells.
\<close>

theorem SafeContainer_access_in_bounds:
  "\<exists>c0 c a. SafeContainer_construct n = Inr c0 \<and> apply_sets c0 ops = Inr c
      \<and> data_m c = Some a \<and> length a = n \<and> SafeContainer_size c = n
      \<and> SafeContainer_get c0 i = Inr 0
      \<and> (if i < n
          then SafeContainer_set c i v = Inr (c\<lparr>data_m := Some (a[i := Some v])\<rparr>)
             \<and> (\<exists>x. a ! i = Some x \<and> SafeContainer_get c i = Inr x)
          else SafeContainer_set c i v = Inr c \<and> SafeContainer_get c i = Inr 0)"
proof -
  from reachable_shape [of n ops] obtain c0 c a
    where r: "SafeContainer_construct n = Inr c0" "apply_sets c0 ops = Inr c"
      "data_m c = Some a" "size_m c = n" "length a = n" "list_all (\<lambda>x. x \<noteq> None) a"
    by blast
  have g0: "SafeContainer_get c0 i = Inr 0"
    using r(1) construct_ok [of n] by (auto simp: SafeContainer_get_def array_read_def)
  have la: "length a = size_m c" using r by simp
  show ?thesis
  proof (cases "i < n")
    case True
    then have i: "i < size_m c" using r by simp
    have s: "SafeContainer_set c i v = Inr (c\<lparr>data_m := Some (a[i := Some v])\<rparr>)"
      by (rule set_in_range [OF r(3) la i])
    from r(5,6) True have "a ! i \<noteq> None" by (simp add: list_all_length)
    then obtain x where x: "a ! i = Some x" by auto
    have "SafeContainer_get c i = Inr x"
      by (rule get_in_range [OF r(3) la i x])
    with s x True r g0 show ?thesis
      by (auto simp: SafeContainer_size_def)
  next
    case False
    then have i: "\<not> i < size_m c" using r by simp
    from set_out_of_range [OF i] get_out_of_range [OF i] False r g0 show ?thesis
      by (auto simp: SafeContainer_size_def)
  qed
qed

theorem SafeContainer_access_in_bounds_witness:
  "\<exists>c. apply_sets \<lparr>data_m = Some [Some 0, Some 0, Some 0], size_m = 3\<rparr> [(0, 100), (7, 5)] = Inr c
     \<and> SafeContainer_get c 0 = Inr 100 \<and> SafeContainer_get c 7 = Inr 0
     \<and> SafeContainer_set c 7 1 = Inr c"
proof -
  let ?start = "\<lparr>data_m = Some [Some (0::32 word), Some 0, Some 0], size_m = 3\<rparr>"
  let ?ops = "[(0, 100), (7, 5)] :: (nat \<times> 32 word) list"
  let ?final = "\<lparr>data_m = Some [Some (100::32 word), Some 0, Some 0], size_m = 3\<rparr>"
  have c0: "SafeContainer_construct 3 = Inr ?start"
    by code_simp
  have ap: "apply_sets ?start ?ops = Inr ?final"
    by code_simp
  from SafeContainer_access_in_bounds [of 3 ?ops 0 1] obtain c0' c a
    where h: "SafeContainer_construct 3 = Inr c0'" "apply_sets c0' ?ops = Inr c"
      "data_m c = Some a" "\<exists>x. a ! 0 = Some x \<and> SafeContainer_get c 0 = Inr x"
    by auto
  from h(1) c0 have "c0' = ?start" by simp
  with h(2) ap have c: "c = ?final" by simp
  with h(3) have "a = [Some 100, Some 0, Some 0]" by simp
  with h(4) have g0: "SafeContainer_get c 0 = Inr 100" by auto
  from SafeContainer_access_in_bounds [of 3 ?ops 7 1] obtain d0 d
    where k: "SafeContainer_construct 3 = Inr d0" "apply_sets d0 ?ops = Inr d"
      "SafeContainer_set d 7 1 = Inr d" "SafeContainer_get d 7 = Inr 0"
    by auto
  from k(1) c0 have "d0 = ?start" by simp
  with k(2) ap have "d = ?final" by simp
  with k(3,4) c g0 ap show ?thesis by simp
qed


text \<open>
  C3, as the code has it. The specification says that no predicate relating
  \<open>SafeContainer\<close>'s pointer and stored size holds after construction and is preserved
  by \<open>set\<close>, \<open>get\<close> and move construction. \<open>SafeContainer_inv\<close> is such a predicate:
  every construction establishes it; no container satisfying it exists on which \<open>set\<close>
  faults or breaks it, on which \<open>get\<close> faults, or whose move construction yields an
  object (the new one or the moved-from one) that breaks it. It is not trivially true: a
  null pointer with size 1 does not satisfy it.
\<close>

theorem SafeContainer_has_invariant:
  "(\<forall>n. \<exists>c. SafeContainer_construct n = Inr c \<and> SafeContainer_inv c)
   \<and> \<not> (\<exists>c i v. SafeContainer_inv c
          \<and> \<not> (\<exists>c'. SafeContainer_set c i v = Inr c' \<and> SafeContainer_inv c'))
   \<and> \<not> (\<exists>c i. SafeContainer_inv c \<and> \<not> (\<exists>x. SafeContainer_get c i = Inr x))
   \<and> \<not> (\<exists>c. SafeContainer_inv c
          \<and> \<not> (SafeContainer_inv (fst (SafeContainer_move c))
               \<and> SafeContainer_inv (snd (SafeContainer_move c))))
   \<and> \<not> SafeContainer_inv \<lparr>data_m = None, size_m = 1\<rparr>"
proof (intro conjI)
  show "\<forall>n. \<exists>c. SafeContainer_construct n = Inr c \<and> SafeContainer_inv c"
    using construct_ok construct_inv by blast
  show "\<not> (\<exists>c i v. SafeContainer_inv c
          \<and> \<not> (\<exists>c'. SafeContainer_set c i v = Inr c' \<and> SafeContainer_inv c'))"
    using set_preserves by blast
  show "\<not> (\<exists>c i. SafeContainer_inv c \<and> \<not> (\<exists>x. SafeContainer_get c i = Inr x))"
    using get_no_fault by blast
  show "\<not> (\<exists>c. SafeContainer_inv c
          \<and> \<not> (SafeContainer_inv (fst (SafeContainer_move c))
               \<and> SafeContainer_inv (snd (SafeContainer_move c))))"
    using move_preserves by blast
  show "\<not> SafeContainer_inv \<lparr>data_m = None, size_m = 1\<rparr>"
    by (simp add: SafeContainer_inv_def)
qed

text \<open>
  C3, amended. \<open>SafeContainer\<close> maintains an invariant relating its pointer and its
  stored size: the pointer is null and the size 0, or the pointer owns exactly \<open>size_\<close>
  initialised elements. The constructor establishes it with the size asked for; on a
  container that satisfies it, \<open>set\<close> completes and preserves it and the size, \<open>get\<close>
  completes (and, being \<open>const\<close>, changes nothing), and move construction yields a new
  object of the same size that satisfies it and leaves the source null, also satisfying it.
\<close>

theorem SafeContainer_inv_preserved:
  assumes "SafeContainer_inv c"
  shows "(\<exists>c0. SafeContainer_construct n = Inr c0 \<and> SafeContainer_inv c0 \<and> size_m c0 = n)
     \<and> (\<exists>c'. SafeContainer_set c i v = Inr c' \<and> SafeContainer_inv c' \<and> size_m c' = size_m c)
     \<and> (\<exists>x. SafeContainer_get c i = Inr x)
     \<and> SafeContainer_inv (fst (SafeContainer_move c))
     \<and> size_m (fst (SafeContainer_move c)) = size_m c
     \<and> SafeContainer_inv (snd (SafeContainer_move c))
     \<and> data_m (snd (SafeContainer_move c)) = None"
proof -
  have "\<exists>c0. SafeContainer_construct n = Inr c0 \<and> SafeContainer_inv c0 \<and> size_m c0 = n"
    using construct_ok [of n] construct_inv [of n] by simp
  moreover note set_preserves [OF assms, of i v] get_no_fault [OF assms, of i]
    move_preserves [OF assms]
  moreover have "size_m (fst (SafeContainer_move c)) = size_m c"
    "data_m (snd (SafeContainer_move c)) = None"
    by (simp_all add: SafeContainer_move_def)
  ultimately show ?thesis by blast
qed

theorem SafeContainer_inv_preserved_witness:
  "SafeContainer_inv \<lparr>data_m = Some [Some 100, Some 0], size_m = 2\<rparr>
   \<and> (\<exists>c'. SafeContainer_set \<lparr>data_m = Some [Some 100, Some 0], size_m = 2\<rparr> 1 7 = Inr c'
          \<and> SafeContainer_inv c')
   \<and> SafeContainer_inv (snd (SafeContainer_move \<lparr>data_m = Some [Some 100, Some 0], size_m = 2\<rparr>))"
proof -
  have h: "SafeContainer_inv \<lparr>data_m = Some [Some 100, Some 0], size_m = 2\<rparr>"
    by (simp add: SafeContainer_inv_def)
  from SafeContainer_inv_preserved [OF h, of 2 1 7] h show ?thesis
    by blast
qed

section \<open>Facts about the rule 63 functions\<close>

lemma to_string_1: "to_string 1 = ''1''"
  by code_simp

lemma to_string_2: "to_string 2 = ''2''"
  by code_simp

lemma to_string_3: "to_string 3 = ''3''"
  by code_simp

lemma attempt_loop_0:
  "attempt_loop 0 s =
     s\<lparr>cout := cout s @ ''[LOG] Attempt 1\<newline>[LOG] Attempt 2\<newline>[LOG] Attempt 3\<newline>''\<rparr>"
proof -
  have "attempt_loop 3 t = t" for t
    by (subst attempt_loop.simps) (simp add: MAX_RETRIES_def)
  moreover have "attempt_loop 2 t = attempt_loop 3 (Logger_log (''Attempt '' @ to_string 3) t)" for t
    by (subst attempt_loop.simps) (simp add: MAX_RETRIES_def)
  moreover have "attempt_loop 1 t = attempt_loop 2 (Logger_log (''Attempt '' @ to_string 2) t)" for t
    by (subst attempt_loop.simps) (simp add: MAX_RETRIES_def)
  moreover have "attempt_loop 0 t = attempt_loop 1 (Logger_log (''Attempt '' @ to_string 1) t)" for t
    by (subst attempt_loop.simps) (simp add: MAX_RETRIES_def)
  ultimately show ?thesis
    by (simp add: Logger_log_def to_string_1 to_string_2 to_string_3)
qed

lemma mylib_processData_state:
  "mylib_processData d s =
     s\<lparr>cout := cout s @
        (if isValidInput d
         then ''[LOG] Processing: '' @ d @
              ''\<newline>[LOG] Attempt 1\<newline>[LOG] Attempt 2\<newline>[LOG] Attempt 3\<newline>''
         else ''[LOG] ERROR: Invalid input\<newline>'')\<rparr>"
  by (simp add: mylib_processData_def attempt_loop_0 logError_def Logger_log_def)

lemma mylib_cacheData_state:
  "mylib_cacheData k v s =
     s\<lparr>cout := cout s @ ''[LOG] Cached: '' @ k @ ''\<newline>'',
       cache := cache s @ [\<lparr>ce_key = k, ce_value = v, ce_timestamp = 0\<rparr>]\<rparr>"
  by (simp add: mylib_cacheData_def Logger_log_def Let_def)

lemma Logger_log_static_eq: "Logger_log_static m s = Logger_log m s"
  by (simp add: Logger_log_static_def Logger_log_def)

lemma attempt_loop_static_eq: "attempt_loop_static i s = attempt_loop i s"
proof (induction i s rule: attempt_loop.induct)
  case (1 i s)
  show ?case
  proof (cases "i < MAX_RETRIES")
    case True
    then have "attempt_loop_static i s =
        attempt_loop_static (i + 1) (Logger_log_static (''Attempt '' @ to_string (i + 1)) s)"
      by (subst attempt_loop_static.simps) (simp add: MAX_RETRIES_static_def MAX_RETRIES_def)
    also have "\<dots> = attempt_loop (i + 1) (Logger_log (''Attempt '' @ to_string (i + 1)) s)"
      using "1.IH" [OF True] by (simp add: Logger_log_static_eq)
    also have "\<dots> = attempt_loop i s"
      using True by (subst (2) attempt_loop.simps) simp
    finally show ?thesis .
  next
    case False
    then have "attempt_loop_static i s = s"
      by (subst attempt_loop_static.simps) (simp add: MAX_RETRIES_static_def MAX_RETRIES_def)
    moreover from False have "attempt_loop i s = s"
      by (subst attempt_loop.simps) simp
    ultimately show ?thesis by simp
  qed
qed

lemma mylib_processData_static_eq: "mylib_processData_static d s = mylib_processData d s"
  by (simp add: mylib_processData_static_def mylib_processData_def isValidInput_static_def
      isValidInput_def logError_static_def logError_def Logger_log_static_eq
      attempt_loop_static_eq)

lemma mylib_cacheData_static_eq: "mylib_cacheData_static k v s = mylib_cacheData k v s"
  by (simp add: mylib_cacheData_static_def mylib_cacheData_def Logger_log_static_eq)

lemma mylib_cacheData_cache:
  "cache (mylib_cacheData k v s) = cache s @ [\<lparr>ce_key = k, ce_value = v, ce_timestamp = 0\<rparr>]"
  by (simp add: mylib_cacheData_def Logger_log_def Let_def)

lemma run_calls_cache_replicate:
  "cache (run_calls mylib_processData mylib_cacheData (replicate n (CacheData k v)) s) =
     cache s @ replicate n \<lparr>ce_key = k, ce_value = v, ce_timestamp = 0\<rparr>"
proof (induction n arbitrary: s)
  case 0
  then show ?case by simp
next
  case (Suc n)
  have "cache (run_calls mylib_processData mylib_cacheData (replicate (Suc n) (CacheData k v)) s) =
      cache (run_calls mylib_processData mylib_cacheData (replicate n (CacheData k v))
        (mylib_cacheData k v s))"
    by simp
  also have "\<dots> = cache (mylib_cacheData k v s)
      @ replicate n \<lparr>ce_key = k, ce_value = v, ce_timestamp = 0\<rparr>"
    by (rule Suc.IH)
  also have "\<dots> = cache s @ replicate (Suc n) \<lparr>ce_key = k, ce_value = v, ce_timestamp = 0\<rparr>"
    by (simp add: mylib_cacheData_cache)
  finally show ?case .
qed

section \<open>Claims about the rule 63 functions\<close>

text \<open>
  C5. The unnamed-namespace version and the \<open>static\<close> version of \<open>mylib::processData\<close> and
  \<open>mylib::cacheData\<close> behave the same: for every sequence of calls with the same
  arguments, run from the same state, the text logged to \<open>std::cout\<close> is identical and
  the cache contents are identical.
\<close>

theorem static_version_same_behaviour:
  "cout (run_calls mylib_processData_static mylib_cacheData_static calls s) =
     cout (run_calls mylib_processData mylib_cacheData calls s)
   \<and> cache (run_calls mylib_processData_static mylib_cacheData_static calls s) =
     cache (run_calls mylib_processData mylib_cacheData calls s)"
proof -
  have "run_calls mylib_processData_static mylib_cacheData_static calls s =
      run_calls mylib_processData mylib_cacheData calls s"
  proof (induction calls arbitrary: s)
    case Nil
    show ?case by simp
  next
    case (Cons c calls)
    show ?case
      by (cases c) (simp_all add: Cons.IH mylib_processData_static_eq mylib_cacheData_static_eq)
  qed
  then show ?thesis by simp
qed

text \<open>
  C6, as the code has it. The specification says that no cache exists and that repeated
  calls to \<open>mylib::cacheData\<close> do not accumulate state. They do: from the initial state,
  the cache holds one entry after \<open>cacheData("key1", "value1")\<close> and two after the same call
  is made again, so the effect of the call on the state depends on the calls before it.
\<close>

theorem cacheData_accumulates:
  "cache (mylib_cacheData ''key1'' ''value1'' initial_state) =
     [\<lparr>ce_key = ''key1'', ce_value = ''value1'', ce_timestamp = 0\<rparr>]
   \<and> cache (mylib_cacheData ''key1'' ''value1'' (mylib_cacheData ''key1'' ''value1'' initial_state)) =
     [\<lparr>ce_key = ''key1'', ce_value = ''value1'', ce_timestamp = 0\<rparr>,
      \<lparr>ce_key = ''key1'', ce_value = ''value1'', ce_timestamp = 0\<rparr>]"
  by (simp add: mylib_cacheData_def Logger_log_def initial_state_def Let_def)

text \<open>
  C6, amended. The rule 63 functions share mutable file-local state, the \<open>cache\<close> vector,
  and \<open>mylib::cacheData\<close> accumulates it: each call appends exactly one entry (the key,
  the value, timestamp 0) to the cache, so \<open>n\<close> repeated calls leave it \<open>n\<close> entries
  longer, while \<open>mylib::processData\<close> leaves the cache as it is. What a call prints is
  independent of the call history: it is the text the same call prints from the initial
  state, appended to the output so far.
\<close>

theorem cacheData_appends_output_history_independent:
  "cache (mylib_cacheData k v s) = cache s @ [\<lparr>ce_key = k, ce_value = v, ce_timestamp = 0\<rparr>]
   \<and> length (cache (run_calls mylib_processData mylib_cacheData (replicate n (CacheData k v)) s)) =
       length (cache s) + n
   \<and> cache (mylib_processData d s) = cache s
   \<and> cout (mylib_cacheData k v s) = cout s @ cout (mylib_cacheData k v initial_state)
   \<and> cout (mylib_processData d s) = cout s @ cout (mylib_processData d initial_state)"
proof (intro conjI)
  show "cache (mylib_cacheData k v s) = cache s @ [\<lparr>ce_key = k, ce_value = v, ce_timestamp = 0\<rparr>]"
    by (rule mylib_cacheData_cache)
  show "length (cache (run_calls mylib_processData mylib_cacheData (replicate n (CacheData k v)) s)) =
       length (cache s) + n"
    by (simp only: run_calls_cache_replicate length_append length_replicate)
  show "cache (mylib_processData d s) = cache s"
    by (simp add: mylib_processData_state)
  show "cout (mylib_cacheData k v s) = cout s @ cout (mylib_cacheData k v initial_state)"
    by (simp add: mylib_cacheData_state initial_state_def)
  show "cout (mylib_processData d s) = cout s @ cout (mylib_processData d initial_state)"
    by (simp add: mylib_processData_state initial_state_def)
qed

section \<open>The claim that every output is a fixed string\<close>

text \<open>
  C1, as the code has it. The specification says that every function's observable
  output is a fixed string that does not depend on its input. \<open>module_a::processData\<close>
  called with the same four-byte buffer and buffer size leaves \<open>ABC\<close> in the buffer for
  the input \<open>abc\<close> and \<open>XYZ\<close> for the input \<open>xyz\<close>.
\<close>

theorem processData_output_varies:
  "processData ''????'' 4 (''abc'' @ [NUL]) = Inr (True, ''ABC'' @ [NUL])
   \<and> processData ''????'' 4 (''xyz'' @ [NUL]) = Inr (True, ''XYZ'' @ [NUL])
   \<and> ''ABC'' @ [NUL] \<noteq> ''XYZ'' @ [NUL]"
  by code_simp

text \<open>
  C1, amended. The output of a function of the demonstration programs is determined by
  its arguments, and is a fixed string only where no argument reaches it:
  \<open>mylib::processData\<close> prints the fixed line \<open>[LOG] ERROR: Invalid input\<close> for every
  invalid argument (empty, or 100 characters or more), and for a valid argument prints
  \<open>[LOG] Processing: \<close> followed by the argument itself and then the three fixed lines
  \<open>[LOG] Attempt 1\<close>, \<open>[LOG] Attempt 2\<close>, \<open>[LOG] Attempt 3\<close>.
\<close>

theorem mylib_processData_output:
  "cout (mylib_processData d s) = cout s @
     (if isValidInput d
      then ''[LOG] Processing: '' @ d @
           ''\<newline>[LOG] Attempt 1\<newline>[LOG] Attempt 2\<newline>[LOG] Attempt 3\<newline>''
      else ''[LOG] ERROR: Invalid input\<newline>'')"
  by (simp add: mylib_processData_state)

end
